theory Spec2Isabelle
  imports Main "HOL-Library.Char_ord" "HOL-Library.List_Lexorder"
begin

section \<open>JavaScript strings\<close>

text \<open>
  A JavaScript string is modelled as a \<^typ>\<open>string\<close> whose characters are read as the
  code units 0 to 255 (the Latin-1 range); code units from 256 on are outside the model.
  On that range \<^verbatim>\<open>toLowerCase\<close> keeps the length of a string, and the white space of
  \<^verbatim>\<open>trim\<close> and of the regular expression class \<^verbatim>\<open>\s\<close> is TAB, LF, VT, FF, CR,
  SPACE and NBSP. The class \<^verbatim>\<open>\d\<close> is the ASCII digits.
\<close>

definition isDigit :: "char \<Rightarrow> bool" where
  "isDigit c = (CHR ''0'' \<le> c \<and> c \<le> CHR ''9'')"

definition isSpace :: "char \<Rightarrow> bool" where
  "isSpace c = (c \<in> set [CHR 0x09, CHR 0x0A, CHR 0x0B, CHR 0x0C, CHR 0x0D, CHR 0x20, CHR 0xA0])"

definition isUpper :: "char \<Rightarrow> bool" where
  "isUpper c = (if CHR ''A'' \<le> c \<and> c \<le> CHR ''Z'' then True
                else if c = CHR 0xD7 then False
                else CHR 0xC0 \<le> c \<and> c \<le> CHR 0xDE)"

definition toLowerChar :: "char \<Rightarrow> char" where
  "toLowerChar c = (if isUpper c then char_of (of_char c + (32::nat)) else c)"

definition toLowerCase :: "string \<Rightarrow> string" where
  "toLowerCase s = map toLowerChar s"

definition trimStart :: "string \<Rightarrow> string" where
  "trimStart s = dropWhile isSpace s"

definition trimEnd :: "string \<Rightarrow> string" where
  "trimEnd s = rev (dropWhile isSpace (rev s))"

definition trim :: "string \<Rightarrow> string" where
  "trim s = trimEnd (trimStart s)"

text \<open>\<^verbatim>\<open>s.replace(/\s+/g, " ")\<close>: every maximal run of white space becomes one space.\<close>

fun collapseWs :: "bool \<Rightarrow> string \<Rightarrow> string" where
  "collapseWs inRun [] = []"
| "collapseWs inRun (c # cs) =
     (if isSpace c then (if inRun then collapseWs True cs else CHR '' '' # collapseWs True cs)
      else c # collapseWs False cs)"

text \<open>\<^verbatim>\<open>s.startsWith(p)\<close> and \<^verbatim>\<open>s.includes(p)\<close>.\<close>

definition startsWith :: "string \<Rightarrow> string \<Rightarrow> bool" where
  "startsWith s p = (take (length p) s = p)"

fun includesStr :: "string \<Rightarrow> string \<Rightarrow> bool" where
  "includesStr [] p = (p = [])"
| "includesStr (c # cs) p = (if startsWith (c # cs) p then True else includesStr cs p)"

definition endsWith :: "string \<Rightarrow> string \<Rightarrow> bool" where
  "endsWith s p = (length p \<le> length s \<and> drop (length s - length p) s = p)"

text \<open>\<^verbatim>\<open>s.split(".")\<close> for a one-character separator; the empty string splits into
  one empty piece.\<close>

fun splitStr :: "char \<Rightarrow> string \<Rightarrow> string list" where
  "splitStr d [] = [[]]"
| "splitStr d (c # cs) =
     (if c = d then [] # splitStr d cs
      else (case splitStr d cs of [] \<Rightarrow> [[c]] | w # ws \<Rightarrow> (c # w) # ws))"

text \<open>\<^verbatim>\<open>s.padStart(n, "0")\<close> with a one-character filler: the zeros go in front.\<close>

definition padStart :: "nat \<Rightarrow> char \<Rightarrow> string \<Rightarrow> string" where
  "padStart n c s = (if n \<le> length s then s else replicate (n - length s) c @ s)"

section \<open>loadIndex.js\<close>

text \<open>
  The anchored regular expressions of the source. \<open>digitsN n s\<close> is \<^verbatim>\<open>/^\d{n}$/\<close>,
  \<open>digits2 s\<close> is \<^verbatim>\<open>/^\d{2}$/\<close>,
  \<open>codeShape k s\<close> is \<^verbatim>\<open>/^\d{2}\.\d{k}$/\<close>, and \<open>matchCode s\<close> is the match of
  \<^verbatim>\<open>/^(\d{2})\.(\d{1,4})$/\<close> with its two groups.
\<close>

definition digitsN :: "nat \<Rightarrow> string \<Rightarrow> bool" where
  "digitsN n s = (length s = n \<and> list_all isDigit s)"

definition digits2 :: "string \<Rightarrow> bool" where
  "digits2 s = digitsN 2 s"

definition codeShape :: "nat \<Rightarrow> string \<Rightarrow> bool" where
  "codeShape k s =
     (length s = 3 + k \<and> list_all isDigit (take 2 s) \<and> take 1 (drop 2 s) = ''.''
        \<and> list_all isDigit (drop 3 s))"

definition matchCode :: "string \<Rightarrow> (string \<times> string) option" where
  "matchCode s =
     (if codeShape 1 s \<or> codeShape 2 s \<or> codeShape 3 s \<or> codeShape 4 s
      then Some (take 2 s, drop 3 s) else None)"

definition normalizeText :: "string \<Rightarrow> string" where
  "normalizeText s = collapseWs False (toLowerCase (trim s))"

text \<open>\<^verbatim>\<open>raw.replace(/[\[\]\(\)]/g, "")\<close>: every bracket and parenthesis is removed.\<close>

definition isBracket :: "char \<Rightarrow> bool" where
  "isBracket c = (c \<in> set ''[]()'')"

definition removeBrackets :: "string \<Rightarrow> string" where
  "removeBrackets raw = filter (\<lambda>c. \<not> isBracket c) raw"

definition normalizeCipInput :: "string \<Rightarrow> string" where
  "normalizeCipInput cip =
     (let raw = trim cip in
      if raw = [] then []
      else
        let cleaned = removeBrackets raw in
        if digits2 cleaned then cleaned @ ''.0000''
        else if codeShape 2 cleaned then
          (case splitStr CHR ''.'' cleaned of
             a # b # _ \<Rightarrow> a @ ''.'' @ b @ ''00''
           | _ \<Rightarrow> [] \<comment> \<open>not reached: a string of this shape splits into two pieces\<close>)
        else if codeShape 4 cleaned then cleaned
        else (case matchCode cleaned of
                Some (left, right) \<Rightarrow> left @ ''.'' @ padStart 4 CHR ''0'' right
              | None \<Rightarrow> []))"

text \<open>
  A record of the index. The JSON document supplies \<open>cip\<close>, \<open>title\<close>, \<open>defn\<close> (the
  field \<^verbatim>\<open>definition\<close>), \<open>stemEligible\<close> and possibly \<open>cipFamily\<close>; a missing string is
  the empty string (the source reads every one of them through \<^verbatim>\<open>|| ""\<close>, for which a
  missing and an empty string are the same), a missing flag is \<open>False\<close>.
  \<^verbatim>\<open>loadIndex\<close> adds the derived fields \<open>cipNorm\<close>, \<open>cipFamily\<close> and \<open>titleNorm\<close>.
\<close>

record cipRecord =
  cip :: string
  cipFamily :: string
  title :: string
  defn :: string
  stemEligible :: bool
  cipNorm :: string
  titleNorm :: string

definition loadRecord :: "cipRecord \<Rightarrow> cipRecord" where
  "loadRecord r =
     r\<lparr> cipNorm := cip r,
        cipFamily := (if cipFamily r \<noteq> [] then cipFamily r
                      else (case splitStr CHR ''.'' (cip r) of a # _ \<Rightarrow> a | [] \<Rightarrow> [])),
        titleNorm := normalizeText (title r) \<rparr>"

definition loadRecords :: "cipRecord list \<Rightarrow> cipRecord list" where
  "loadRecords rs = map loadRecord rs"

section \<open>search.js\<close>

text \<open>\<^verbatim>\<open>new Map(records.map((r) => [r.cipNorm, r]))\<close>: entries are inserted in order, a
  later record replaces an earlier one with the same key.\<close>

definition byCip :: "cipRecord list \<Rightarrow> (string \<rightharpoonup> cipRecord)" where
  "byCip records = fold (\<lambda>r m. m(cipNorm r \<mapsto> r)) records Map.empty"

definition matchCipPrefix :: "cipRecord \<Rightarrow> string \<Rightarrow> bool" where
  "matchCipPrefix record userInputRaw =
     (let raw = trim userInputRaw in
      if raw = [] then False
      else if digits2 raw then cipFamily record = raw
      else if codeShape 2 raw then startsWith (cipNorm record) raw
      else False)"

text \<open>The body of the scan loop that decides \<^verbatim>\<open>ok\<close> for one record.\<close>

definition isHit :: "string \<Rightarrow> string \<Rightarrow> string \<Rightarrow> cipRecord \<Rightarrow> bool" where
  "isHit query qText qCipCanon r =
     (let ok1 = matchCipPrefix r query;
          ok2 = (if \<not> ok1 \<and> qText \<noteq> [] then (if includesStr (titleNorm r) qText then True else ok1)
                 else ok1);
          ok3 = (if \<not> ok2 \<and> qCipCanon \<noteq> []
                 then (let prefix4 = take 5 qCipCanon
                       in if startsWith (cipNorm r) prefix4 then True else ok2)
                 else ok2)
      in ok3)"

text \<open>
  The \<^verbatim>\<open>for (const r of records)\<close> loop, with \<open>results\<close> the list built so far. A record
  skipped by \<^verbatim>\<open>continue\<close> also skips the test of the limit, which is made only at the
  end of an iteration, after the push.
\<close>

fun scanLoop :: "string \<Rightarrow> string \<Rightarrow> string \<Rightarrow> bool \<Rightarrow> int \<Rightarrow> cipRecord list \<Rightarrow> cipRecord list
    \<Rightarrow> cipRecord list" where
  "scanLoop query qText qCipCanon stemOnly limit [] results = results"
| "scanLoop query qText qCipCanon stemOnly limit (r # rs) results =
     (if stemOnly \<and> \<not> stemEligible r
      then scanLoop query qText qCipCanon stemOnly limit rs results
      else
        let results' = (if isHit query qText qCipCanon r then results @ [r] else results)
        in if int (length results') \<ge> limit then results'
           else scanLoop query qText qCipCanon stemOnly limit rs results')"

text \<open>The records that an iteration of the loop pushes: those it does not skip and for
  which \<^verbatim>\<open>ok\<close> is true.\<close>

definition accepts :: "string \<Rightarrow> string \<Rightarrow> string \<Rightarrow> bool \<Rightarrow> cipRecord \<Rightarrow> bool" where
  "accepts query qText qCipCanon stemOnly r =
     (if stemOnly \<and> \<not> stemEligible r then False else isHit query qText qCipCanon r)"

text \<open>The record of the exact branch: \<^verbatim>\<open>qCipCanon && byCip.has(qCipCanon)\<close>.\<close>

definition exactMatch :: "cipRecord list \<Rightarrow> string \<Rightarrow> cipRecord option" where
  "exactMatch records qCipCanon = (if qCipCanon \<noteq> [] then byCip records qCipCanon else None)"

text \<open>
  \<^verbatim>\<open>search({q, stemOnly, limit})\<close> of the engine built over \<open>records\<close>. The limit is an
  integer of either sign (the source does not check it); other JavaScript numbers are
  outside the model. The final sort compares \<open>cipNorm\<close> as strings, code unit by code
  unit, and is stable.
\<close>

definition search :: "cipRecord list \<Rightarrow> string \<Rightarrow> bool \<Rightarrow> int \<Rightarrow> cipRecord list" where
  "search records q stemOnly limit =
     (let query = trim q;
          qText = normalizeText query;
          qCipCanon = normalizeCipInput query
      in case exactMatch records qCipCanon of
           Some rec \<Rightarrow> (if \<not> stemOnly \<or> stemEligible rec then [rec] else [])
         | None \<Rightarrow>
             sort_key cipNorm (scanLoop query qText qCipCanon stemOnly limit records []))"

section \<open>app.js\<close>

text \<open>\<^verbatim>\<open>s.replace(/^[\[\(]+|[\]\)]+$/g, "")\<close>: the leading run of opening brackets and the
  trailing run of closing brackets are removed.\<close>

definition isOpening :: "char \<Rightarrow> bool" where
  "isOpening c = (c \<in> set ''[('')"

definition isClosing :: "char \<Rightarrow> bool" where
  "isClosing c = (c \<in> set ''])'')"

definition stripBrackets :: "string \<Rightarrow> string" where
  "stripBrackets s = rev (dropWhile isClosing (rev (dropWhile isOpening s)))"

definition canonicalCip :: "string \<Rightarrow> string" where
  "canonicalCip raw =
     (let s = stripBrackets (trim raw) in
      if s = [] then []
      else if CHR ''.'' \<notin> set s then (if digits2 s then s @ ''.0000'' else s)
      else
        (case take 2 (splitStr CHR ''.'' s) of
           left # rightRaw # _ \<Rightarrow>
             (let left2 = trim left; right = trim rightRaw in
              if digits2 left2 \<and> digits2 right then left2 @ ''.'' @ right @ ''00''
              else if digits2 left2 \<and> digitsN 4 right then left2 @ ''.'' @ right
              else if digits2 left2 \<and> (digitsN 1 right \<or> digitsN 2 right \<or> digitsN 3 right \<or> digitsN 4 right)
                then left2 @ ''.'' @ padStart 4 CHR ''0'' right
              else s)
         | _ \<Rightarrow> s \<comment> \<open>not reached: a string with a dot splits into two pieces or more\<close>))"

text \<open>\<^verbatim>\<open>s.split(/\s+/)\<close>: the pieces between maximal runs of white space, with an empty
  piece before a leading run and after a trailing one.\<close>

fun splitWs :: "bool \<Rightarrow> string \<Rightarrow> string list" where
  "splitWs inRun [] = [[]]"
| "splitWs inRun (c # cs) =
     (if isSpace c then (if inRun then splitWs True cs else [] # splitWs True cs)
      else (case splitWs False cs of [] \<Rightarrow> [[c]] | w # ws \<Rightarrow> (c # w) # ws))"

definition tokenize :: "string \<Rightarrow> string list" where
  "tokenize q = filter (\<lambda>t. t \<noteq> []) (map trim (splitWs False (toLowerCase q)))"

text \<open>\<^verbatim>\<open>searchIndex(q, stemOnly)\<close> over the global \<^verbatim>\<open>INDEX\<close>, which is \<open>None\<close> until the
  index has been loaded and then holds its records.\<close>

definition searchIndex :: "cipRecord list option \<Rightarrow> string \<Rightarrow> bool \<Rightarrow> cipRecord list" where
  "searchIndex INDEX q stemOnly =
     (case INDEX of
        None \<Rightarrow> []
      | Some records \<Rightarrow>
          (let qTrim = trim q;
               toks = tokenize qTrim;
               asCip = canonicalCip qTrim;
               isCipQuery = (asCip \<noteq> [] \<and> codeShape 4 asCip);
               hits = (if stemOnly then filter (\<lambda>r. stemEligible r) records else records)
           in if qTrim = [] then take 50 hits
              else if isCipQuery then
                (let family = take 2 asCip; roll4 = take 5 asCip; exact = asCip
                 in if endsWith exact ''.0000''
                    then filter (\<lambda>r. startsWith (cip r) (family @ ''.'')) hits
                    else if endsWith exact ''00''
                    then filter (\<lambda>r. startsWith (cip r) roll4) hits
                    else filter (\<lambda>r. cip r = exact) hits)
              else filter (\<lambda>r. let hay = toLowerCase (title r @ '' '' @ defn r)
                                in list_all (\<lambda>t. includesStr hay t) toks) hits))"

section \<open>A small index\<close>

text \<open>
  Records as the JSON document holds them (no \<^verbatim>\<open>cipFamily\<close>, no derived field), and two
  indexes as \<^verbatim>\<open>loadIndex\<close> delivers them; \<open>indexA\<close> has a record whose code is the
  rolled-up \<^verbatim>\<open>14.0900\<close>, \<open>indexB\<close> has none. Neither is stored in code order.
\<close>

definition jsonRecord :: "string \<Rightarrow> string \<Rightarrow> string \<Rightarrow> bool \<Rightarrow> cipRecord" where
  "jsonRecord c t d e =
     \<lparr> cip = c, cipFamily = [], title = t, defn = d, stemEligible = e,
       cipNorm = [], titleNorm = [] \<rparr>"

definition rHist :: cipRecord where
  "rHist = jsonRecord ''54.0101'' ''History (see 14.09)'' [] False"

definition rCS :: cipRecord where
  "rCS = jsonRecord ''11.0701'' ''Computer Science''
           ''Software engineering and computer theory'' True"

definition rCE0 :: cipRecord where
  "rCE0 = jsonRecord ''14.0900'' ''Computer Engineering'' [] False"

definition rCE :: cipRecord where
  "rCE = jsonRecord ''14.0901'' ''Computer Engineering, General'' [] True"

definition rEE :: cipRecord where
  "rEE = jsonRecord ''14.1001'' ''Electrical and Electronics Engineering'' [] True"

definition indexA :: "cipRecord list" where
  "indexA = loadRecords [rHist, rCS, rCE0, rCE, rEE]"

definition indexB :: "cipRecord list" where
  "indexB = loadRecords [rHist, rCS, rCE, rEE]"

section \<open>Properties of the string functions and of the canonicalizer\<close>

lemma isDigit_not_dot: "isDigit c \<Longrightarrow> c \<noteq> CHR ''.''"
  by (auto simp: isDigit_def)

lemma isDigit_not_space: "isDigit c \<Longrightarrow> \<not> isSpace c"
  by (auto simp: isDigit_def isSpace_def)

lemma isDigit_zero: "isDigit CHR ''0''"
  by (simp add: isDigit_def)

lemma splitStr_no_sep: "d \<notin> set xs \<Longrightarrow> splitStr d xs = [xs]"
  by (induction xs) auto

lemma splitStr_append_sep:
  "d \<notin> set xs \<Longrightarrow> splitStr d (xs @ d # ys) = xs # splitStr d ys"
  by (induction xs) auto

lemma codeShape_decomp:
  "codeShape k s \<longleftrightarrow> (\<exists>a b. s = a @ ''.'' @ b \<and> digitsN 2 a \<and> digitsN k b)"
proof
  assume h: "codeShape k s"
  have "s = take 2 s @ drop 2 s" by simp
  also have "drop 2 s = take 1 (drop 2 s) @ drop 3 s"
    by (metis append_take_drop_id drop_drop numeral_3_eq_3 numeral_2_eq_2 plus_1_eq_Suc add_Suc)
  finally have "s = take 2 s @ ''.'' @ drop 3 s" using h by (simp add: codeShape_def)
  moreover have "digitsN 2 (take 2 s)" "digitsN k (drop 3 s)"
    using h by (auto simp: codeShape_def digitsN_def)
  ultimately show "\<exists>a b. s = a @ ''.'' @ b \<and> digitsN 2 a \<and> digitsN k b" by blast
next
  assume "\<exists>a b. s = a @ ''.'' @ b \<and> digitsN 2 a \<and> digitsN k b"
  then show "codeShape k s" by (auto simp: codeShape_def digitsN_def)
qed

lemma digitsN_no_dot: "digitsN n a \<Longrightarrow> CHR ''.'' \<notin> set a"
  by (auto simp: digitsN_def list_all_iff dest: isDigit_not_dot)

lemma splitStr_code:
  assumes "digitsN 2 a" "digitsN k b"
  shows "splitStr CHR ''.'' (a @ ''.'' @ b) = [a, b]"
  using assms by (simp add: splitStr_append_sep splitStr_no_sep digitsN_no_dot)

lemma codeShape_intro: "digitsN 2 a \<Longrightarrow> digitsN k b \<Longrightarrow> codeShape k (a @ ''.'' @ b)"
  by (auto simp: codeShape_decomp)

lemma digitsN_append: "digitsN m a \<Longrightarrow> digitsN n b \<Longrightarrow> digitsN (m + n) (a @ b)"
  by (auto simp: digitsN_def)

lemma digitsN_zeros: "digitsN n (replicate n CHR ''0'')"
  by (simp add: digitsN_def list_all_iff isDigit_zero)

lemma padStart_digits:
  assumes "digitsN k b" "k \<le> 4"
  shows "digitsN 4 (padStart 4 CHR ''0'' b)"
proof -
  have "digitsN ((4 - k) + k) (replicate (4 - k) CHR ''0'' @ b)"
    using assms(1) digitsN_zeros by (rule digitsN_append [rotated])
  then show ?thesis using assms by (auto simp: padStart_def digitsN_def)
qed

lemma matchCode_Some:
  assumes "matchCode s = Some (l, r)"
  shows "digitsN 2 l \<and> (\<exists>k\<le>4. digitsN k r)"
proof -
  from assms obtain k where k: "codeShape k s" "k \<le> 4" and lr: "l = take 2 s" "r = drop 3 s"
    by (auto simp: matchCode_def split: if_splits)
  from k(1) obtain a b where "s = a @ ''.'' @ b" "digitsN 2 a" "digitsN k b"
    by (auto simp: codeShape_decomp)
  then show ?thesis using lr k(2) by (auto simp: digitsN_def)
qed

lemma normalizeCipInput_shape: "normalizeCipInput s = [] \<or> codeShape 4 (normalizeCipInput s)"
proof -
  define cleaned where "cleaned = removeBrackets (trim s)"
  consider (e) "trim s = []"
    | (a) "trim s \<noteq> []" "digits2 cleaned"
    | (b) "trim s \<noteq> []" "\<not> digits2 cleaned" "codeShape 2 cleaned"
    | (c) "trim s \<noteq> []" "\<not> digits2 cleaned" "\<not> codeShape 2 cleaned" "codeShape 4 cleaned"
    | (d) "trim s \<noteq> []" "\<not> digits2 cleaned" "\<not> codeShape 2 cleaned" "\<not> codeShape 4 cleaned"
    by blast
  then show ?thesis
  proof cases
    case e then show ?thesis by (simp add: normalizeCipInput_def)
  next
    case a
    have "digitsN 4 ''0000''" by (simp add: digitsN_def isDigit_zero)
    with a have "codeShape 4 (cleaned @ ''.'' @ ''0000'')"
      unfolding digits2_def by (rule_tac codeShape_intro)
    with a show ?thesis by (simp add: normalizeCipInput_def cleaned_def Let_def)
  next
    case b
    then obtain x y where xy: "cleaned = x @ ''.'' @ y" "digitsN 2 x" "digitsN 2 y"
      by (auto simp: codeShape_decomp)
    have "digitsN 2 ''00''" by (simp add: digitsN_def isDigit_zero)
    with xy have "digitsN (2 + 2) (y @ ''00'')" by (intro digitsN_append)
    then have "codeShape 4 (x @ ''.'' @ (y @ ''00''))" using xy by (intro codeShape_intro) simp_all
    moreover have "splitStr CHR ''.'' cleaned = [x, y]" using xy splitStr_code by simp
    ultimately show ?thesis using b
      by (simp add: normalizeCipInput_def cleaned_def [symmetric] Let_def)
  next
    case c then show ?thesis by (simp add: normalizeCipInput_def cleaned_def Let_def)
  next
    case d
    show ?thesis
    proof (cases "matchCode cleaned")
      case None
      with d show ?thesis by (simp add: normalizeCipInput_def cleaned_def [symmetric] Let_def)
    next
      case (Some lr)
      obtain l r where lr: "lr = (l, r)" by (cases lr)
      with Some matchCode_Some obtain k where "digitsN 2 l" "k \<le> 4" "digitsN k r" by blast
      then have "codeShape 4 (l @ ''.'' @ padStart 4 CHR ''0'' r)"
        by (intro codeShape_intro padStart_digits)
      with d Some lr show ?thesis
        by (simp add: normalizeCipInput_def cleaned_def [symmetric] Let_def)
    qed
  qed
qed

lemma trimEnd_idem: "trimEnd (trimEnd s) = trimEnd s"
  by (simp add: trimEnd_def)

lemma trimEnd_prefix: "\<exists>w. s = trimEnd s @ w"
proof -
  have "s = rev (takeWhile isSpace (rev s) @ dropWhile isSpace (rev s))"
    by (simp only: takeWhile_dropWhile_id rev_rev_ident)
  then have "s = trimEnd s @ rev (takeWhile isSpace (rev s))"
    by (simp only: rev_append trimEnd_def)
  then show ?thesis ..
qed

lemma trimStart_trimEnd:
  assumes "trimStart t = t"
  shows "trimStart (trimEnd t) = trimEnd t"
proof (cases "trimEnd t")
  case Nil
  then show ?thesis by (simp add: trimStart_def)
next
  case (Cons c cs)
  obtain w where "t = trimEnd t @ w" using trimEnd_prefix by blast
  with Cons have "hd t = c" and "t \<noteq> []"
    by (metis append_Cons list.sel(1), metis Nil_is_append_conv list.distinct(1))
  with assms have "\<not> isSpace c"
    by (simp add: trimStart_def dropWhile_eq_self_iff)
  with Cons show ?thesis by (simp add: trimStart_def)
qed

lemma trim_idem: "trim (trim s) = trim s"
proof -
  have "trimStart (trimStart s) = trimStart s" by (simp add: trimStart_def)
  then have "trimStart (trimEnd (trimStart s)) = trimEnd (trimStart s)"
    by (rule trimStart_trimEnd)
  then show ?thesis by (simp add: trim_def trimEnd_idem)
qed

lemma trim_no_space:
  assumes "\<forall>c\<in>set s. \<not> isSpace c"
  shows "trim s = s"
proof -
  have "dropWhile isSpace s = s"
    by (rule dropWhile_id) (use assms in blast)
  moreover have "dropWhile isSpace (rev s) = rev s"
    by (rule dropWhile_id) (use assms in simp)
  ultimately show ?thesis by (simp add: trim_def trimStart_def trimEnd_def)
qed

lemma normalizeCipInput_trim: "normalizeCipInput (trim q) = normalizeCipInput q"
  by (simp add: normalizeCipInput_def trim_idem)

lemma normalizeText_trim: "normalizeText (trim q) = normalizeText q"
  by (simp add: normalizeText_def trim_idem)

lemma matchCipPrefix_trim: "matchCipPrefix r (trim q) = matchCipPrefix r q"
  by (simp add: matchCipPrefix_def trim_idem)

lemma isDigit_not_bracket: "isDigit c \<Longrightarrow> \<not> isBracket c"
  by (auto simp: isDigit_def isBracket_def)

lemma isDigit_not_opening: "isDigit c \<Longrightarrow> \<not> isOpening c"
  by (auto simp: isDigit_def isOpening_def)

lemma isDigit_not_closing: "isDigit c \<Longrightarrow> \<not> isClosing c"
  by (auto simp: isDigit_def isClosing_def)

lemma dot_plain:
  "\<not> isSpace CHR ''.''" "\<not> isBracket CHR ''.''" "\<not> isOpening CHR ''.''" "\<not> isClosing CHR ''.''"
  by (simp_all add: isSpace_def isBracket_def isOpening_def isClosing_def)

lemma code_chars:
  assumes "digitsN 2 a" "digitsN k b" "c \<in> set (a @ ''.'' @ b)"
  shows "\<not> isSpace c \<and> \<not> isBracket c \<and> \<not> isOpening c \<and> \<not> isClosing c"
proof -
  from assms have "isDigit c \<or> c = CHR ''.''" by (auto simp: digitsN_def list_all_iff)
  then show ?thesis
  proof
    assume "isDigit c"
    then show ?thesis
      using isDigit_not_space isDigit_not_bracket isDigit_not_opening isDigit_not_closing
      by blast
  next
    assume "c = CHR ''.''"
    then show ?thesis using dot_plain by simp
  qed
qed

lemma trim_code: "digitsN 2 a \<Longrightarrow> digitsN k b \<Longrightarrow> trim (a @ ''.'' @ b) = a @ ''.'' @ b"
  by (rule trim_no_space) (use code_chars in blast)

lemma removeBrackets_code:
  assumes "digitsN 2 a" "digitsN k b"
  shows "removeBrackets (a @ ''.'' @ b) = a @ ''.'' @ b"
  unfolding removeBrackets_def
  by (rule filter_True) (use assms code_chars in blast)

lemma digits_chars:
  assumes "digitsN n a" "c \<in> set a"
  shows "\<not> isSpace c \<and> \<not> isBracket c \<and> \<not> isOpening c \<and> \<not> isClosing c"
proof -
  from assms have "isDigit c" by (auto simp: digitsN_def list_all_iff)
  then show ?thesis
    using isDigit_not_space isDigit_not_bracket isDigit_not_opening isDigit_not_closing
    by blast
qed

lemma trim_digits: "digitsN n a \<Longrightarrow> trim a = a"
  by (rule trim_no_space) (use digits_chars in blast)

lemma removeBrackets_digits: "digitsN n a \<Longrightarrow> removeBrackets a = a"
  unfolding removeBrackets_def
  by (rule filter_True) (use digits_chars in blast)

lemma codeShape_length: "codeShape k s \<Longrightarrow> length s = 3 + k"
  by (simp add: codeShape_def)

lemma matchCode_code:
  assumes "digitsN 2 a" "digitsN k b" "1 \<le> k" "k \<le> 4"
  shows "matchCode (a @ ''.'' @ b) = Some (a, b)"
proof -
  from assms(1,2) have cs: "codeShape k (a @ ''.'' @ b)" by (rule codeShape_intro)
  from assms(3,4) have "k = 1 \<or> k = 2 \<or> k = 3 \<or> k = 4" by arith
  with cs have "codeShape 1 (a @ ''.'' @ b) \<or> codeShape 2 (a @ ''.'' @ b)
      \<or> codeShape 3 (a @ ''.'' @ b) \<or> codeShape 4 (a @ ''.'' @ b)"
    by blast
  moreover from assms(1) have "take 2 (a @ ''.'' @ b) = a" "drop 3 (a @ ''.'' @ b) = b"
    by (simp_all add: digitsN_def)
  ultimately show ?thesis by (simp add: matchCode_def)
qed

lemma padStart_short:
  "length b = k \<Longrightarrow> k < 4 \<Longrightarrow> padStart 4 c b = replicate (4 - k) c @ b"
  by (simp add: padStart_def)

lemma normalizeCipInput_pad:
  assumes a: "digitsN 2 a" and b: "digitsN k b" and k: "k = 1 \<or> k = 3"
  shows "normalizeCipInput (a @ ''.'' @ b) = a @ ''.'' @ replicate (4 - k) CHR ''0'' @ b"
proof -
  let ?s = "a @ ''.'' @ b"
  have len: "length ?s = 3 + k" using a b by (simp add: digitsN_def)
  have t: "trim ?s = ?s" using a b by (rule trim_code)
  have c: "removeBrackets ?s = ?s" using a b by (rule removeBrackets_code)
  have n2: "\<not> digits2 ?s" using a by (simp add: digits2_def digitsN_def)
  have n22: "\<not> codeShape 2 ?s" using len k codeShape_length [of 2 ?s] by auto
  have n24: "\<not> codeShape 4 ?s" using len k codeShape_length [of 4 ?s] by auto
  have m: "matchCode ?s = Some (a, b)" using a b k by (intro matchCode_code) auto
  have p: "padStart 4 CHR ''0'' b = replicate (4 - k) CHR ''0'' @ b"
    using b k by (intro padStart_short) (auto simp: digitsN_def)
  have ne: "?s \<noteq> []" by simp
  show ?thesis
    unfolding normalizeCipInput_def Let_def t c
    by (simp only: ne n2 n22 n24 m p if_False option.case prod.case)
qed

lemma stripBrackets_code:
  assumes a: "digitsN 2 a" and b: "digitsN k b"
  shows "stripBrackets (a @ ''.'' @ b) = a @ ''.'' @ b"
proof -
  let ?s = "a @ ''.'' @ b"
  have 1: "dropWhile isOpening ?s = ?s"
    by (rule dropWhile_id) (use a b code_chars in blast)
  have "\<And>c. c \<in> set (rev ?s) \<Longrightarrow> \<not> isClosing c"
    using a b code_chars unfolding set_rev by blast
  then have 2: "dropWhile isClosing (rev ?s) = rev ?s"
    by (rule dropWhile_id)
  show ?thesis unfolding stripBrackets_def 1 2 by (rule rev_rev_ident)
qed

lemma canonicalCip_pad:
  assumes a: "digitsN 2 a" and b: "digitsN k b" and k: "k = 1 \<or> k = 3"
  shows "canonicalCip (a @ ''.'' @ b) = a @ ''.'' @ replicate (4 - k) CHR ''0'' @ b"
proof -
  let ?s = "a @ ''.'' @ b"
  have t: "trim ?s = ?s" using a b by (rule trim_code)
  have c: "stripBrackets ?s = ?s" using a b by (rule stripBrackets_code)
  have "splitStr CHR ''.'' ?s = [a, b]" using a b by (rule splitStr_code)
  then have sp: "take 2 (splitStr CHR ''.'' ?s) = [a, b]" by simp
  have ta: "trim a = a" using a by (rule trim_digits)
  have tb: "trim b = b" using b by (rule trim_digits)
  have a2: "digits2 a" using a by (simp add: digits2_def)
  have nb2: "\<not> digits2 b" "\<not> digitsN 4 b" using b k by (auto simp: digits2_def digitsN_def)
  have b13: "(digitsN 1 b \<or> digitsN 2 b \<or> digitsN 3 b) = True" using b k by auto
  have p: "padStart 4 CHR ''0'' b = replicate (4 - k) CHR ''0'' @ b"
    using b k by (intro padStart_short) (auto simp: digitsN_def)
  have dot: "\<not> CHR ''.'' \<notin> set ?s" by simp
  have ne: "?s \<noteq> []" by simp
  show ?thesis
    unfolding canonicalCip_def Let_def t c sp
    by (simp only: dot ne ta tb a2 nb2 b13 p if_False if_True list.case simp_thms)
qed
lemma codeShape_not_digits2: "codeShape k s \<Longrightarrow> \<not> digits2 s"
  by (simp add: codeShape_def digits2_def digitsN_def)

lemma removeBrackets_codeShape:
  assumes "codeShape k s"
  shows "removeBrackets s = s"
proof -
  from assms obtain a b where "s = a @ ''.'' @ b" "digitsN 2 a" "digitsN k b"
    unfolding codeShape_decomp by blast
  then show ?thesis by (simp only: removeBrackets_code)
qed

lemma normalizeCipInput_family:
  assumes "digits2 (trim q)"
  shows "normalizeCipInput q = trim q @ ''.0000''"
proof -
  from assms have "trim q \<noteq> []" by (auto simp: digits2_def digitsN_def)
  moreover from assms have "removeBrackets (trim q) = trim q"
    unfolding digits2_def by (rule removeBrackets_digits)
  ultimately show ?thesis using assms by (simp add: normalizeCipInput_def Let_def)
qed

lemma normalizeCipInput_subfamily:
  assumes "codeShape 2 (trim q)"
  shows "normalizeCipInput q = trim q @ ''00''"
proof -
  from assms obtain a b where ab: "trim q = a @ ''.'' @ b" "digitsN 2 a" "digitsN 2 b"
    by (auto simp: codeShape_decomp)
  then have sp: "splitStr CHR ''.'' (trim q) = [a, b]" by (simp only: splitStr_code)
  have ne: "trim q \<noteq> []" using ab by simp
  have rb: "removeBrackets (trim q) = trim q" using assms by (rule removeBrackets_codeShape)
  have nd: "\<not> digits2 (trim q)" using assms by (rule codeShape_not_digits2)
  have "normalizeCipInput q = a @ ''.'' @ b @ ''00''"
    unfolding normalizeCipInput_def Let_def rb sp
    by (simp only: ne nd assms if_True if_False list.case)
  with ab show ?thesis by simp
qed

lemma normalizeCipInput_full:
  assumes "codeShape 4 (trim q)"
  shows "normalizeCipInput q = trim q"
proof -
  have ne: "trim q \<noteq> []" using assms by (auto simp: codeShape_def)
  have rb: "removeBrackets (trim q) = trim q" using assms by (rule removeBrackets_codeShape)
  have nd: "\<not> digits2 (trim q)" using assms by (rule codeShape_not_digits2)
  have n2: "\<not> codeShape 2 (trim q)" using assms by (auto simp: codeShape_def)
  show ?thesis
    unfolding normalizeCipInput_def Let_def rb
    by (simp only: ne nd n2 assms if_True if_False)
qed

section \<open>Properties of the lookup map and of the scan loop\<close>

lemma byCip_snoc: "byCip (rs @ [r]) = (byCip rs)(cipNorm r \<mapsto> r)"
  by (simp add: byCip_def)

lemma byCip_Some: "byCip rs k = Some r \<Longrightarrow> r \<in> set rs \<and> cipNorm r = k"
  by (induction rs rule: rev_induct) (auto simp: byCip_snoc byCip_def split: if_splits)

lemma byCip_None: "byCip rs k = None \<longleftrightarrow> k \<notin> cipNorm ` set rs"
  by (induction rs rule: rev_induct) (auto simp: byCip_snoc byCip_def)

lemma byCip_unique:
  assumes "r \<in> set rs" "\<forall>r'\<in>set rs. cipNorm r' = cipNorm r \<longrightarrow> r' = r"
  shows "byCip rs (cipNorm r) = Some r"
proof -
  from assms(1) have "byCip rs (cipNorm r) \<noteq> None" by (simp add: byCip_None)
  then obtain r' where r': "byCip rs (cipNorm r) = Some r'" by blast
  then have "r' \<in> set rs" "cipNorm r' = cipNorm r" using byCip_Some by blast+
  with assms(2) r' show ?thesis by simp
qed

lemma isHit_iff:
  "isHit query qText qCipCanon r \<longleftrightarrow>
     matchCipPrefix r query
     \<or> (qText \<noteq> [] \<and> includesStr (titleNorm r) qText)
     \<or> (qCipCanon \<noteq> [] \<and> startsWith (cipNorm r) (take 5 qCipCanon))"
  by (auto simp: isHit_def Let_def)

lemma scanLoop_skip:
  "stemOnly \<Longrightarrow> \<not> stemEligible r \<Longrightarrow>
   scanLoop Q T C stemOnly limit (r # rs) acc = scanLoop Q T C stemOnly limit rs acc"
  by simp

lemma scanLoop_hit:
  "stemOnly \<longrightarrow> stemEligible r \<Longrightarrow> isHit Q T C r \<Longrightarrow>
   scanLoop Q T C stemOnly limit (r # rs) acc =
     (if limit \<le> int (length acc) + 1 then acc @ [r]
      else scanLoop Q T C stemOnly limit rs (acc @ [r]))"
  by (cases stemOnly) simp_all

lemma scanLoop_miss:
  "stemOnly \<longrightarrow> stemEligible r \<Longrightarrow> \<not> isHit Q T C r \<Longrightarrow>
   scanLoop Q T C stemOnly limit (r # rs) acc =
     (if limit \<le> int (length acc) then acc
      else scanLoop Q T C stemOnly limit rs acc)"
  by (cases stemOnly) simp_all

lemma scanLoop_all:
  "int (length acc) + int (length (filter (accepts Q T C stemOnly) rs)) \<le> limit
   \<Longrightarrow> scanLoop Q T C stemOnly limit rs acc = acc @ filter (accepts Q T C stemOnly) rs"
proof (induction rs arbitrary: acc)
  case Nil
  then show ?case by simp
next
  case (Cons r rs)
  let ?F = "filter (accepts Q T C stemOnly) rs"
  consider (skip) "stemOnly" "\<not> stemEligible r"
    | (hit) "stemOnly \<longrightarrow> stemEligible r" "isHit Q T C r"
    | (miss) "stemOnly \<longrightarrow> stemEligible r" "\<not> isHit Q T C r"
    by blast
  then show ?case
  proof cases
    case skip
    then have acc: "\<not> accepts Q T C stemOnly r" by (auto simp: accepts_def)
    with Cons.prems have "int (length acc) + int (length ?F) \<le> limit" by simp
    then have "scanLoop Q T C stemOnly limit rs acc = acc @ ?F" by (rule Cons.IH)
    with skip acc show ?thesis by (simp add: scanLoop_skip del: scanLoop.simps)
  next
    case hit
    then have acc: "accepts Q T C stemOnly r" by (auto simp: accepts_def)
    with Cons.prems have le: "int (length (acc @ [r])) + int (length ?F) \<le> limit" by simp
    then have le': "int (length acc) + 1 + int (length ?F) \<le> limit" by simp
    show ?thesis
    proof (cases "limit \<le> int (length acc) + 1")
      case True
      with le' have "int (length ?F) \<le> 0" by linarith
      then have "?F = []" by simp
      with True hit acc show ?thesis by (simp add: scanLoop_hit del: scanLoop.simps)
    next
      case False
      from le have "scanLoop Q T C stemOnly limit rs (acc @ [r]) = (acc @ [r]) @ ?F"
        by (rule Cons.IH)
      with False hit acc show ?thesis by (simp add: scanLoop_hit del: scanLoop.simps)
    qed
  next
    case miss
    then have acc: "\<not> accepts Q T C stemOnly r" by (auto simp: accepts_def)
    with Cons.prems have le: "int (length acc) + int (length ?F) \<le> limit" by simp
    show ?thesis
    proof (cases "limit \<le> int (length acc)")
      case True
      with le have "int (length ?F) \<le> 0" by linarith
      then have "?F = []" by simp
      with True miss acc show ?thesis by (simp add: scanLoop_miss del: scanLoop.simps)
    next
      case False
      from le have "scanLoop Q T C stemOnly limit rs acc = acc @ ?F" by (rule Cons.IH)
      with False miss acc show ?thesis by (simp add: scanLoop_miss del: scanLoop.simps)
    qed
  qed
qed

lemma scanLoop_take:
  "int (length acc) < limit
   \<Longrightarrow> scanLoop Q T C stemOnly limit rs acc
       = acc @ take (nat limit - length acc) (filter (accepts Q T C stemOnly) rs)"
proof (induction rs arbitrary: acc)
  case Nil
  then show ?case by simp
next
  case (Cons r rs)
  let ?F = "filter (accepts Q T C stemOnly) rs"
  consider (skip) "stemOnly" "\<not> stemEligible r"
    | (hit) "stemOnly \<longrightarrow> stemEligible r" "isHit Q T C r"
    | (miss) "stemOnly \<longrightarrow> stemEligible r" "\<not> isHit Q T C r"
    by blast
  then show ?case
  proof cases
    case skip
    then have acc: "\<not> accepts Q T C stemOnly r" by (auto simp: accepts_def)
    from Cons.prems
    have "scanLoop Q T C stemOnly limit rs acc = acc @ take (nat limit - length acc) ?F"
      by (rule Cons.IH)
    with skip acc show ?thesis by (simp add: scanLoop_skip del: scanLoop.simps)
  next
    case hit
    then have acc: "accepts Q T C stemOnly r" by (auto simp: accepts_def)
    show ?thesis
    proof (cases "limit \<le> int (length acc) + 1")
      case True
      with Cons.prems have "nat limit - length acc = Suc 0" by simp
      with True hit acc show ?thesis by (simp add: scanLoop_hit del: scanLoop.simps)
    next
      case False
      then have lt: "int (length (acc @ [r])) < limit" by simp
      then have n: "nat limit - length acc = Suc (nat limit - length (acc @ [r]))" by simp
      from lt have "scanLoop Q T C stemOnly limit rs (acc @ [r])
          = (acc @ [r]) @ take (nat limit - length (acc @ [r])) ?F"
        by (rule Cons.IH)
      with False hit acc n show ?thesis by (simp add: scanLoop_hit del: scanLoop.simps)
    qed
  next
    case miss
    then have acc: "\<not> accepts Q T C stemOnly r" by (auto simp: accepts_def)
    from Cons.prems
    have "scanLoop Q T C stemOnly limit rs acc = acc @ take (nat limit - length acc) ?F"
      by (rule Cons.IH)
    with Cons.prems miss acc show ?thesis by (simp add: scanLoop_miss del: scanLoop.simps)
  qed
qed

lemma scanLoop_nonpositive:
  "limit \<le> 0
   \<Longrightarrow> scanLoop Q T C stemOnly limit rs []
       = (case filter (\<lambda>r. \<not> (stemOnly \<and> \<not> stemEligible r)) rs of
            [] \<Rightarrow> []
          | r # _ \<Rightarrow> if isHit Q T C r then [r] else [])"
  by (induction rs) auto

section \<open>Properties of search\<close>

lemma search_exact:
  "exactMatch records (normalizeCipInput q) = Some rec \<Longrightarrow>
   search records q stemOnly limit = (if \<not> stemOnly \<or> stemEligible rec then [rec] else [])"
  by (simp add: search_def Let_def normalizeCipInput_trim)

lemma search_scan:
  "exactMatch records (normalizeCipInput q) = None \<Longrightarrow>
   search records q stemOnly limit =
     sort_key cipNorm (scanLoop (trim q) (normalizeText q) (normalizeCipInput q) stemOnly limit records [])"
  by (simp add: search_def Let_def normalizeCipInput_trim normalizeText_trim)

lemma search_scan_all:
  assumes "exactMatch records (normalizeCipInput q) = None"
    and "int (length (filter (accepts (trim q) (normalizeText q) (normalizeCipInput q) stemOnly) records)) \<le> limit"
  shows "search records q stemOnly limit =
     sort_key cipNorm (filter (accepts (trim q) (normalizeText q) (normalizeCipInput q) stemOnly) records)"
proof -
  from assms(2)
  have "scanLoop (trim q) (normalizeText q) (normalizeCipInput q) stemOnly limit records []
      = [] @ filter (accepts (trim q) (normalizeText q) (normalizeCipInput q) stemOnly) records"
    by (intro scanLoop_all) simp
  with assms(1) show ?thesis by (simp add: search_scan)
qed

lemma search_scan_take:
  assumes "exactMatch records (normalizeCipInput q) = None" and "0 < limit"
  shows "search records q stemOnly limit =
     sort_key cipNorm (take (nat limit)
       (filter (accepts (trim q) (normalizeText q) (normalizeCipInput q) stemOnly) records))"
proof -
  from assms(2)
  have "scanLoop (trim q) (normalizeText q) (normalizeCipInput q) stemOnly limit records []
      = [] @ take (nat limit - length ([]::cipRecord list))
                (filter (accepts (trim q) (normalizeText q) (normalizeCipInput q) stemOnly) records)"
    by (intro scanLoop_take) simp
  with assms(1) show ?thesis by (simp add: search_scan)
qed

lemma exactMatch_Some: "exactMatch records c = Some r \<Longrightarrow> r \<in> set records \<and> cipNorm r = c \<and> c \<noteq> []"
  by (auto simp: exactMatch_def dest: byCip_Some split: if_splits)

lemma exactMatch_empty: "exactMatch records [] = None"
  by (simp add: exactMatch_def)

lemma exactMatch_absent: "c \<notin> cipNorm ` set records \<Longrightarrow> exactMatch records c = None"
  by (simp add: exactMatch_def byCip_None)

lemma accepts_False: "accepts Q T C False r = isHit Q T C r"
  by (simp add: accepts_def)

lemma accepts_True: "accepts Q T C True r = (stemEligible r \<and> isHit Q T C r)"
  by (auto simp: accepts_def)

lemma noncode_no_prefix:
  assumes "normalizeCipInput q = []"
  shows "\<not> matchCipPrefix r (trim q)"
proof
  assume "matchCipPrefix r (trim q)"
  then have "digits2 (trim q) \<or> codeShape 2 (trim q)"
    by (auto simp: matchCipPrefix_def trim_idem Let_def split: if_splits)
  then have "normalizeCipInput q \<noteq> []"
    using normalizeCipInput_family normalizeCipInput_subfamily by fastforce
  with assms show False by simp
qed

lemma isHit_noncode:
  assumes "normalizeCipInput q = []"
  shows "isHit (trim q) (normalizeText q) (normalizeCipInput q) r
         \<longleftrightarrow> normalizeText q \<noteq> [] \<and> includesStr (titleNorm r) (normalizeText q)"
  using assms noncode_no_prefix [OF assms, of r] by (simp add: isHit_iff)

lemma titleNorm_loadRecord: "titleNorm (loadRecord j) = normalizeText (title j)"
  by (simp add: loadRecord_def)

lemma scanLoop_no_hits:
  "\<forall>r\<in>set rs. \<not> isHit Q T C r \<Longrightarrow> scanLoop Q T C stemOnly limit rs [] = []"
  by (induction rs) auto

lemma matchCipPrefix_family:
  "digits2 (trim q) \<Longrightarrow> matchCipPrefix r (trim q) = (cipFamily r = trim q)"
  by (auto simp: matchCipPrefix_def trim_idem Let_def digits2_def digitsN_def)

lemma matchCipPrefix_subfamily:
  assumes "codeShape 2 (trim q)"
  shows "matchCipPrefix r (trim q) = startsWith (cipNorm r) (trim q)"
proof -
  have "trim q \<noteq> []" using assms by (auto simp: codeShape_def)
  moreover have "\<not> digits2 (trim q)" using assms by (rule codeShape_not_digits2)
  ultimately show ?thesis using assms by (simp add: matchCipPrefix_def trim_idem Let_def)
qed

lemma query_1409:
  "trim ''14.09'' = ''14.09''" "normalizeText ''14.09'' = ''14.09''"
  "normalizeCipInput ''14.09'' = ''14.0900''" "codeShape 2 ''14.09''"
  by code_simp+

lemma isHit_1409:
  "isHit ''14.09'' ''14.09'' ''14.0900'' r
   \<longleftrightarrow> startsWith (cipNorm r) ''14.09'' \<or> includesStr (titleNorm r) ''14.09''"
proof -
  have "codeShape 2 (trim ''14.09'')" by (simp only: query_1409)
  then have "matchCipPrefix r (trim ''14.09'') = startsWith (cipNorm r) (trim ''14.09'')"
    by (rule matchCipPrefix_subfamily)
  then have "matchCipPrefix r ''14.09'' = startsWith (cipNorm r) ''14.09''"
    by (simp only: query_1409)
  then show ?thesis by (auto simp: isHit_iff)
qed

text \<open>The length of the result for a limit of either sign: a limit below 1 still lets one
  record through.\<close>

lemma search_length_any_limit:
  "int (length (search records q stemOnly limit)) \<le> max 1 limit"
proof (cases "exactMatch records (normalizeCipInput q)")
  case (Some rec)
  then have "length (search records q stemOnly limit) \<le> 1" by (simp add: search_exact)
  then show ?thesis by linarith
next
  case None
  show ?thesis
  proof (cases "0 < limit")
    case True
    with None have "search records q stemOnly limit =
       sort_key cipNorm (take (nat limit)
         (filter (accepts (trim q) (normalizeText q) (normalizeCipInput q) stemOnly) records))"
      by (rule search_scan_take)
    then have "length (search records q stemOnly limit) \<le> nat limit" by simp
    with True show ?thesis by linarith
  next
    case False
    then have "limit \<le> 0" by simp
    then have "scanLoop (trim q) (normalizeText q) (normalizeCipInput q) stemOnly limit records [] =
       (case filter (\<lambda>r. \<not> (stemOnly \<and> \<not> stemEligible r)) records of
          [] \<Rightarrow> []
        | r # _ \<Rightarrow> if isHit (trim q) (normalizeText q) (normalizeCipInput q) r then [r] else [])"
      by (rule scanLoop_nonpositive)
    then have "length (scanLoop (trim q) (normalizeText q) (normalizeCipInput q) stemOnly limit records [])
        \<le> 1"
      by (simp split: list.split)
    with None have "length (search records q stemOnly limit) \<le> 1" by (simp add: search_scan)
    then show ?thesis by linarith
  qed
qed

section \<open>Properties of the page script\<close>

text \<open>
  The page script \<^verbatim>\<open>app.js\<close> has a search of its own, \<open>searchIndex\<close>, which differs
  from the engine of \<^verbatim>\<open>search.js\<close>: it browses on an empty query, matches key words
  token by token over title and definition, and rolls a code fragment up without an exact
  branch. The lemmas below record that behaviour next to the claims about \<open>search\<close>.
\<close>

lemma searchIndex_browse:
  "searchIndex (Some records) [] stemOnly =
     take 50 (if stemOnly then filter stemEligible records else records)"
proof -
  have t: "trim [] = []" by (simp add: trim_def trimStart_def trimEnd_def)
  show ?thesis by (simp add: searchIndex_def Let_def t)
qed

lemma searchIndex_keyword:
  assumes "trim q \<noteq> []" and "\<not> codeShape 4 (canonicalCip (trim q))"
  shows "searchIndex (Some records) q stemOnly =
     filter (\<lambda>r. list_all (includesStr (toLowerCase (title r @ '' '' @ defn r)))
                    (tokenize (trim q)))
       (if stemOnly then filter stemEligible records else records)"
  using assms by (simp add: searchIndex_def Let_def)

lemma searchIndex_keyword_example:
  "map cip (searchIndex (Some indexB) ''computer engineering'' False) = [''11.0701'', ''14.0901'']"
  by code_simp

lemma searchIndex_rollup_example:
  "map cip (searchIndex (Some indexA) ''14.09'' False) = [''14.0900'', ''14.0901'']"
  by code_simp

section \<open>The claims\<close>

text \<open>
  C1. The claim does not hold of \<open>search\<close>: its keyword test is one substring test of
  the whole normalized query (trimmed, lower case, every run of white space one space)
  against the normalized title; the definition is not read and tokens are not tested one
  by one. The record \<open>rCS\<close> holds both tokens of \<^verbatim>\<open>computer engineering\<close> in its title
  and definition and is not returned.
\<close>

theorem keyword_and_counterexample:
  "tokenize ''computer engineering'' = [''computer'', ''engineering'']
   \<and> list_all (includesStr (toLowerCase (title (loadRecord rCS) @ defn (loadRecord rCS))))
        (tokenize ''computer engineering'')
   \<and> loadRecord rCS \<in> set indexB
   \<and> loadRecord rCS \<notin> set (search indexB ''computer engineering'' False 50)"
  by code_simp

text \<open>
  C1, as the code has it. For a query that is not code-shaped (the canonicalizer returns
  the empty string) and a positive limit, \<open>search\<close> returns, sorted by code, the first
  \<open>limit\<close> records in stored order that pass the \<open>stemOnly\<close> filter and whose
  normalized title contains the non-empty normalized query as one substring.
\<close>

theorem keyword_path_is_title_phrase:
  assumes "normalizeCipInput q = []" and "0 < limit"
  shows "search records q stemOnly limit =
     sort_key cipNorm (take (nat limit)
       (filter (\<lambda>r. (stemOnly \<longrightarrow> stemEligible r)
                      \<and> normalizeText q \<noteq> []
                      \<and> includesStr (titleNorm r) (normalizeText q))
          records))"
proof -
  have "exactMatch records (normalizeCipInput q) = None"
    using assms(1) by (simp add: exactMatch_empty)
  then have "search records q stemOnly limit =
     sort_key cipNorm (take (nat limit)
       (filter (accepts (trim q) (normalizeText q) (normalizeCipInput q) stemOnly) records))"
    using assms(2) by (rule search_scan_take)
  moreover have "accepts (trim q) (normalizeText q) (normalizeCipInput q) stemOnly =
      (\<lambda>r. (stemOnly \<longrightarrow> stemEligible r)
             \<and> normalizeText q \<noteq> []
             \<and> includesStr (titleNorm r) (normalizeText q))"
    by (rule ext) (auto simp: accepts_def isHit_noncode [OF assms(1)])
  ultimately show ?thesis by simp
qed

theorem keyword_path_is_title_phrase_witness:
  "normalizeCipInput ''Computer  Engineering'' = [] \<and> (0::int) < 50
   \<and> search indexB ''Computer  Engineering'' False 50 = [loadRecord rCE]"
proof -
  have 1: "normalizeCipInput ''Computer  Engineering'' = []" by code_simp
  have 2: "(0::int) < 50" by simp
  have "sort_key cipNorm (take (nat 50)
       (filter (\<lambda>r. (False \<longrightarrow> stemEligible r)
                      \<and> normalizeText ''Computer  Engineering'' \<noteq> []
                      \<and> includesStr (titleNorm r) (normalizeText ''Computer  Engineering''))
          indexB)) = [loadRecord rCE]"
    by code_simp
  with keyword_path_is_title_phrase [OF 1 2, of indexB False] 1 2 show ?thesis by simp
qed

text \<open>
  C2. The claim does not hold of \<open>search\<close>: with an empty query no test of the scan
  loop can succeed, so nothing is returned, here for an index of four records.
\<close>

theorem empty_query_browse_counterexample:
  "search indexB [] False 10 \<noteq> take 10 indexB"
  by code_simp

text \<open>
  C2, as the code has it. \<open>search\<close> with the empty query returns the empty list, for
  either value of \<open>stemOnly\<close> and for every limit. (Browsing the first records in stored
  order is what \<open>searchIndex\<close> of the page script does, with the fixed count 50: lemma
  \<open>searchIndex_browse\<close>.)
\<close>

theorem empty_query_returns_nothing: "search records [] stemOnly limit = []"
proof -
  have t: "trim [] = []" by (simp add: trim_def trimStart_def trimEnd_def)
  have n: "normalizeCipInput [] = []" by (simp add: normalizeCipInput_def t)
  have x: "normalizeText [] = []" by (simp add: normalizeText_def t toLowerCase_def)
  have "\<And>r. \<not> isHit [] [] [] r" by (simp add: isHit_iff matchCipPrefix_def t)
  then have "scanLoop [] [] [] stemOnly limit records [] = []"
    by (intro scanLoop_no_hits) simp
  moreover have "exactMatch records (normalizeCipInput []) = None" by (simp add: n exactMatch_empty)
  ultimately show ?thesis by (simp add: search_scan t n x)
qed

theorem empty_query_returns_nothing_witness:
  "search indexB [] False 10 = [] \<and> search indexB [] True 10 = []"
  using empty_query_returns_nothing [of indexB False 10]
    empty_query_returns_nothing [of indexB True 10] by simp

text \<open>
  C3. When some record of the collection has the canonicalized query as its code (a full
  code, so not the empty string) and no other record has that code, \<open>search\<close> returns
  the one-element list of that record if it passes the \<open>stemOnly\<close> filter and the empty
  list otherwise. Nothing else about the collection enters the result: titles and codes of
  other records, the family and keyword tests and the limit play no part. That each code
  is held by one record is the invariant of the index; were a code held twice, the lookup
  map would keep the later record (lemma \<open>byCip_snoc\<close>).
\<close>

theorem exact_match_short_circuit:
  assumes "r \<in> set records"
    and "cipNorm r = normalizeCipInput q"
    and "normalizeCipInput q \<noteq> []"
    and "\<forall>r'\<in>set records. cipNorm r' = cipNorm r \<longrightarrow> r' = r"
  shows "search records q stemOnly limit = (if \<not> stemOnly \<or> stemEligible r then [r] else [])"
proof -
  from assms(1,4) have "byCip records (cipNorm r) = Some r" by (rule byCip_unique)
  with assms(2,3) have "exactMatch records (normalizeCipInput q) = Some r"
    by (simp add: exactMatch_def)
  then show ?thesis by (rule search_exact)
qed

theorem exact_match_short_circuit_witness:
  "loadRecord rCE \<in> set indexA
   \<and> cipNorm (loadRecord rCE) = normalizeCipInput ''14.0901''
   \<and> normalizeCipInput ''14.0901'' \<noteq> []
   \<and> filter (\<lambda>r'. cipNorm r' = cipNorm (loadRecord rCE)) indexA = [loadRecord rCE]
   \<and> search indexA ''14.0901'' True 50 = [loadRecord rCE]"
proof -
  have 1: "loadRecord rCE \<in> set indexA" by code_simp
  have 2: "cipNorm (loadRecord rCE) = normalizeCipInput ''14.0901''" by code_simp
  have 3: "normalizeCipInput ''14.0901'' \<noteq> []" by code_simp
  have 4: "\<forall>r'\<in>set indexA. cipNorm r' = cipNorm (loadRecord rCE) \<longrightarrow> r' = loadRecord rCE"
    by code_simp
  have 5: "stemEligible (loadRecord rCE)" by code_simp
  have 6: "filter (\<lambda>r'. cipNorm r' = cipNorm (loadRecord rCE)) indexA = [loadRecord rCE]"
    by code_simp
  from exact_match_short_circuit [OF 1 2 3 4, of True 50] 5
  have "search indexA ''14.0901'' True 50 = [loadRecord rCE]" by simp
  with 1 2 3 6 show ?thesis by blast
qed

text \<open>
  C4. The claim does not hold of \<open>search\<close>, for two reasons. In \<open>indexA\<close> the code
  \<^verbatim>\<open>14.0900\<close> is a record, the query \<^verbatim>\<open>14.09\<close> canonicalizes to it, and the exact
  branch returns that record alone, without \<^verbatim>\<open>14.0901\<close>. In \<open>indexB\<close> the record
  \<^verbatim>\<open>54.0101\<close>, whose title mentions 14.09, is returned by the keyword test although its
  code does not start with \<^verbatim>\<open>14.09\<close>.
\<close>

theorem subfamily_search_counterexample:
  "search indexA ''14.09'' False 50 \<noteq>
      sort_key cipNorm (filter (\<lambda>r. startsWith (cipNorm r) ''14.09'') indexA)
   \<and> search indexB ''14.09'' False 50 \<noteq>
      sort_key cipNorm (filter (\<lambda>r. startsWith (cipNorm r) ''14.09'') indexB)"
  by code_simp

text \<open>
  C4, as the code has it. In a collection with no record of code \<^verbatim>\<open>14.0900\<close>, and with
  a limit of at least the number of matching records, the query \<^verbatim>\<open>14.09\<close> without the
  STEM filter returns exactly the records whose code starts with \<^verbatim>\<open>14.09\<close> or whose
  normalized title contains \<^verbatim>\<open>14.09\<close>, in ascending order of code.
\<close>

theorem subfamily_search_1409:
  assumes "''14.0900'' \<notin> cipNorm ` set records"
    and "int (length (filter (\<lambda>r. startsWith (cipNorm r) ''14.09''
                                  \<or> includesStr (titleNorm r) ''14.09'') records)) \<le> limit"
  shows "search records ''14.09'' False limit =
           sort_key cipNorm (filter (\<lambda>r. startsWith (cipNorm r) ''14.09''
                                          \<or> includesStr (titleNorm r) ''14.09'') records)
         \<and> sorted (map cipNorm (search records ''14.09'' False limit))"
proof -
  let ?P = "\<lambda>r. startsWith (cipNorm r) ''14.09'' \<or> includesStr (titleNorm r) ''14.09''"
  have acc: "accepts (trim ''14.09'') (normalizeText ''14.09'') (normalizeCipInput ''14.09'') False = ?P"
    by (rule ext) (simp only: query_1409 accepts_False isHit_1409)
  have "exactMatch records (normalizeCipInput ''14.09'') = None"
    using assms(1) unfolding query_1409(3) by (rule exactMatch_absent)
  moreover from assms(2)
  have "int (length (filter (accepts (trim ''14.09'') (normalizeText ''14.09'')
            (normalizeCipInput ''14.09'') False) records)) \<le> limit"
    by (simp only: acc)
  ultimately have "search records ''14.09'' False limit =
      sort_key cipNorm (filter (accepts (trim ''14.09'') (normalizeText ''14.09'')
            (normalizeCipInput ''14.09'') False) records)"
    by (rule search_scan_all)
  then have eq: "search records ''14.09'' False limit = sort_key cipNorm (filter ?P records)"
    by (simp only: acc)
  have "sorted (map cipNorm (sort_key cipNorm (filter ?P records)))" by (rule sorted_sort_key)
  with eq show ?thesis by simp
qed

theorem subfamily_search_1409_witness:
  "''14.0900'' \<notin> cipNorm ` set indexB
   \<and> search indexB ''14.09'' False 2 = [loadRecord rCE, loadRecord rHist]
   \<and> sorted (map cipNorm (search indexB ''14.09'' False 2))"
proof -
  have 1: "''14.0900'' \<notin> cipNorm ` set indexB" by code_simp
  have "length (filter (\<lambda>r. startsWith (cipNorm r) ''14.09''
                                  \<or> includesStr (titleNorm r) ''14.09'') indexB) = 2"
    by code_simp
  then have 2: "int (length (filter (\<lambda>r. startsWith (cipNorm r) ''14.09''
                                  \<or> includesStr (titleNorm r) ''14.09'') indexB)) \<le> 2"
    by simp
  have 3: "sort_key cipNorm (filter (\<lambda>r. startsWith (cipNorm r) ''14.09''
                                          \<or> includesStr (titleNorm r) ''14.09'') indexB)
        = [loadRecord rCE, loadRecord rHist]"
    by code_simp
  have r: "search indexB ''14.09'' False 2 =
           sort_key cipNorm (filter (\<lambda>r. startsWith (cipNorm r) ''14.09''
                                          \<or> includesStr (titleNorm r) ''14.09'') indexB)
         \<and> sorted (map cipNorm (search indexB ''14.09'' False 2))"
    using 1 2 by (rule subfamily_search_1409)
  then have "search indexB ''14.09'' False 2 = [loadRecord rCE, loadRecord rHist]"
    using 3 by (simp only:)
  with r 1 show ?thesis by blast
qed

text \<open>
  C5. The claim does not hold of \<open>search\<close>: the query \<^verbatim>\<open>14.0000\<close> has a canonical form
  ending in \<^verbatim>\<open>.0000\<close>, but it is not a two-digit fragment, so the family test is not
  made; what is left is the test of the code prefix \<^verbatim>\<open>14.00\<close>, and the record
  \<^verbatim>\<open>14.1001\<close> of family 14 is not returned.
\<close>

theorem family_search_counterexample:
  "endsWith (normalizeCipInput ''14.0000'') ''.0000''
   \<and> loadRecord rEE \<in> set indexB
   \<and> cipFamily (loadRecord rEE) = take 2 (normalizeCipInput ''14.0000'')
   \<and> loadRecord rEE \<notin> set (search indexB ''14.0000'' False 50)"
  by code_simp

text \<open>
  C5, as the code has it. When the trimmed query is exactly two digits and no record has
  the code made of these digits and \<^verbatim>\<open>.0000\<close>, \<open>search\<close> returns every record whose
  \<open>cipFamily\<close> equals the query and which passes the \<open>stemOnly\<close> filter, whatever
  the rest of its code, provided the limit is at least the number of records the query
  matches.
\<close>

theorem family_search_two_digits:
  assumes "digits2 (trim q)"
    and "trim q @ ''.0000'' \<notin> cipNorm ` set records"
    and "int (length (filter (accepts (trim q) (normalizeText q) (normalizeCipInput q) stemOnly)
                        records)) \<le> limit"
    and "r \<in> set records"
    and "cipFamily r = trim q"
    and "stemOnly \<longrightarrow> stemEligible r"
  shows "r \<in> set (search records q stemOnly limit)"
proof -
  have c: "normalizeCipInput q = trim q @ ''.0000''" using assms(1) by (rule normalizeCipInput_family)
  have "exactMatch records (normalizeCipInput q) = None"
    using assms(2) unfolding c by (rule exactMatch_absent)
  then have "search records q stemOnly limit =
      sort_key cipNorm (filter (accepts (trim q) (normalizeText q) (normalizeCipInput q) stemOnly) records)"
    using assms(3) by (rule search_scan_all)
  moreover have "matchCipPrefix r (trim q)"
    using assms(1,5) by (simp add: matchCipPrefix_family)
  then have "accepts (trim q) (normalizeText q) (normalizeCipInput q) stemOnly r"
    using assms(6) by (simp add: accepts_def isHit_iff)
  ultimately show ?thesis using assms(4) by simp
qed

theorem family_search_two_digits_witness:
  "digits2 (trim '' 14 '')
   \<and> trim '' 14 '' @ ''.0000'' \<notin> cipNorm ` set indexA
   \<and> loadRecord rEE \<in> set indexA
   \<and> cipFamily (loadRecord rEE) = trim '' 14 ''
   \<and> loadRecord rEE \<in> set (search indexA '' 14 '' True 50)"
proof -
  have 1: "digits2 (trim '' 14 '')" by code_simp
  have 2: "trim '' 14 '' @ ''.0000'' \<notin> cipNorm ` set indexA" by code_simp
  have "length (filter (accepts (trim '' 14 '') (normalizeText '' 14 '') (normalizeCipInput '' 14 '') True)
                        indexA) = 2"
    by code_simp
  then have 3: "int (length (filter (accepts (trim '' 14 '') (normalizeText '' 14 '')
                  (normalizeCipInput '' 14 '') True) indexA)) \<le> 50"
    by simp
  have 4: "loadRecord rEE \<in> set indexA" by code_simp
  have 5: "cipFamily (loadRecord rEE) = trim '' 14 ''" by code_simp
  have 6: "True \<longrightarrow> stemEligible (loadRecord rEE)" by code_simp
  from family_search_two_digits [OF 1 2 3 4 5 6] 1 2 4 5 show ?thesis by blast
qed

text \<open>
  C6. The claim does not hold: both canonicalizers pad with \<^verbatim>\<open>padStart\<close>, which puts the
  zeros in front of the right segment, so \<^verbatim>\<open>14.9\<close> becomes \<^verbatim>\<open>14.0009\<close>.
\<close>

theorem canonicalize_pad_counterexample:
  "normalizeCipInput ''14.9'' \<noteq> ''14.9000'' \<and> canonicalCip ''14.9'' \<noteq> ''14.9000''"
  by code_simp

text \<open>
  C6, as the code has it. For an input made of two digits, a dot and one or three digits
  (the lengths that the rules for two and for four digits leave), \<open>normalizeCipInput\<close>
  pads the right segment with leading zeros up to length 4. The same holds of
  \<open>canonicalCip\<close> (lemma \<open>canonicalCip_pad\<close>).
\<close>

theorem canonicalize_pads_left:
  assumes "digitsN 2 a" and "digitsN k b" and "k = 1 \<or> k = 3"
  shows "normalizeCipInput (a @ ''.'' @ b) = a @ ''.'' @ replicate (4 - k) CHR ''0'' @ b"
  using assms by (rule normalizeCipInput_pad)

theorem canonicalize_pads_left_witness:
  "digitsN 2 ''14'' \<and> digitsN 1 ''9'' \<and> normalizeCipInput ''14.9'' = ''14.0009''"
proof -
  have 1: "digitsN 2 ''14''" by code_simp
  have 2: "digitsN 1 ''9''" by code_simp
  have 3: "(1::nat) = 1 \<or> (1::nat) = 3" by simp
  have "''14'' @ ''.'' @ replicate (4 - 1) CHR ''0'' @ ''9'' = ''14.0009''" by code_simp
  with canonicalize_pads_left [OF 1 2 3] 1 2 show ?thesis by simp
qed

text \<open>
  C7. The claim does not hold for every positive limit: the limit counts the records
  kept after the STEM filter, so with limit 1 the filtered search returns the first
  eligible match, which the unfiltered search, stopped at an earlier match that is not
  eligible, does not return.
\<close>

theorem stem_filter_counterexample:
  "(0::int) < 1
   \<and> \<not> set (search indexA ''computer engineering'' True 1)
         \<subseteq> set (filter stemEligible (search indexA ''computer engineering'' False 1))"
  by code_simp

text \<open>
  C7, as the code has it. When the limit is at least the number of records that match
  the query, \<open>search\<close> with the STEM filter returns exactly the eligible records of
  \<open>search\<close> without the filter, in the same order; in particular it is a subset of them.
\<close>

theorem stem_filter_composition:
  assumes "int (length (filter (isHit (trim q) (normalizeText q) (normalizeCipInput q)) records)) \<le> limit"
  shows "search records q True limit = filter stemEligible (search records q False limit)"
proof (cases "exactMatch records (normalizeCipInput q)")
  case (Some rec)
  then show ?thesis by (simp add: search_exact)
next
  case None
  let ?hit = "isHit (trim q) (normalizeText q) (normalizeCipInput q)"
  let ?acc = "accepts (trim q) (normalizeText q) (normalizeCipInput q)"
  have accF: "?acc False = ?hit" by (rule ext) (simp add: accepts_False)
  have "?acc True = (\<lambda>r. stemEligible r \<and> ?hit r)" by (rule ext) (rule accepts_True)
  then have accT: "filter (?acc True) records = filter stemEligible (filter ?hit records)"
    by (simp add: conj_commute)
  have "length (filter stemEligible (filter ?hit records)) \<le> length (filter ?hit records)"
    by (rule length_filter_le)
  with assms have leT: "int (length (filter (?acc True) records)) \<le> limit"
    unfolding accT by linarith
  from assms have leF: "int (length (filter (?acc False) records)) \<le> limit"
    unfolding accF .
  have "search records q True limit = sort_key cipNorm (filter (?acc True) records)"
    using None leT by (rule search_scan_all)
  moreover have "search records q False limit = sort_key cipNorm (filter (?acc False) records)"
    using None leF by (rule search_scan_all)
  ultimately show ?thesis
    unfolding accT accF by (simp only: filter_sort)
qed

theorem stem_filter_composition_witness:
  "search indexA ''computer engineering'' False 2 = [loadRecord rCE0, loadRecord rCE]
   \<and> search indexA ''computer engineering'' True 2 = [loadRecord rCE]"
proof -
  have "length (filter (isHit (trim ''computer engineering'') (normalizeText ''computer engineering'')
           (normalizeCipInput ''computer engineering'')) indexA) = 2"
    by code_simp
  then have 1: "int (length (filter (isHit (trim ''computer engineering'')
           (normalizeText ''computer engineering'')
           (normalizeCipInput ''computer engineering'')) indexA)) \<le> 2"
    by simp
  have 2: "search indexA ''computer engineering'' False 2 = [loadRecord rCE0, loadRecord rCE]"
    by code_simp
  have 3: "filter stemEligible [loadRecord rCE0, loadRecord rCE] = [loadRecord rCE]"
    by code_simp
  have "search indexA ''computer engineering'' True 2
      = filter stemEligible (search indexA ''computer engineering'' False 2)"
    using 1 by (rule stem_filter_composition)
  then have "search indexA ''computer engineering'' True 2 = [loadRecord rCE]"
    by (simp only: 2 3)
  with 2 show ?thesis by blast
qed

text \<open>
  C8. For a positive limit, the domain of the operation, \<open>search\<close> returns at most
  \<open>limit\<close> records, whatever the collection, the query and the \<open>stemOnly\<close> flag.
  (For a limit of either sign the bound is \<open>max 1 limit\<close>: lemma
  \<open>search_length_any_limit\<close>.)
\<close>

theorem search_limit_bound:
  assumes "0 < limit"
  shows "int (length (search records q stemOnly limit)) \<le> limit"
proof (cases "exactMatch records (normalizeCipInput q)")
  case None
  then have "search records q stemOnly limit =
     sort_key cipNorm (take (nat limit)
       (filter (accepts (trim q) (normalizeText q) (normalizeCipInput q) stemOnly) records))"
    using assms by (rule search_scan_take)
  then have "length (search records q stemOnly limit) \<le> nat limit" by simp
  with assms show ?thesis by linarith
next
  case (Some rec)
  then have "length (search records q stemOnly limit) \<le> 1" by (simp add: search_exact)
  with assms show ?thesis by linarith
qed

theorem search_limit_bound_witness:
  "(0::int) < 1 \<and> int (length (search indexA ''computer engineering'' False 1)) \<le> 1"
  using search_limit_bound [of 1 indexA "''computer engineering''" False] by simp

text \<open>
  C9. \<open>normalizeCipInput\<close> returns, for every input string, either the empty string or a
  string of the canonical shape: two digits, a dot, four digits. No other string is ever
  returned, so an input of another shape never comes back unchanged.
\<close>

theorem normalizeCipInput_canonical_or_empty:
  "normalizeCipInput s = [] \<or> codeShape 4 (normalizeCipInput s)"
  by (rule normalizeCipInput_shape)

theorem normalizeCipInput_canonical_or_empty_witness:
  "codeShape 4 (normalizeCipInput ''[14.903]'') \<and> normalizeCipInput ''14.09x'' = []"
proof -
  have "normalizeCipInput ''[14.903]'' \<noteq> []" by code_simp
  with normalizeCipInput_canonical_or_empty [of "''[14.903]''"]
  have "codeShape 4 (normalizeCipInput ''[14.903]'')" by blast
  moreover have "normalizeCipInput ''14.09x'' = []" by code_simp
  ultimately show ?thesis by blast
qed

text \<open>
  C10. The claim does not hold as stated: with limit 0 the loop stops at the end of its
  first iteration that is not skipped, hit or no hit. In \<open>indexB\<close> the query
  \<^verbatim>\<open>engineering\<close> matches a record, but not the first one, and the result is empty.
\<close>

theorem zero_limit_counterexample:
  "exactMatch indexB (normalizeCipInput ''engineering'') = None
   \<and> loadRecord rCE \<in> set indexB
   \<and> isHit (trim ''engineering'') (normalizeText ''engineering'')
        (normalizeCipInput ''engineering'') (loadRecord rCE)
   \<and> length (search indexB ''engineering'' False 0) \<noteq> 1"
  by code_simp

text \<open>
  C10, as the code has it. With limit 0 and no exact match, \<open>search\<close> returns the
  one-element list of the first record that the \<open>stemOnly\<close> filter does not skip when
  that record matches the query, and the empty list when it does not match or when every
  record is skipped.
\<close>

theorem zero_limit_first_record:
  assumes "exactMatch records (normalizeCipInput q) = None"
  shows "search records q stemOnly 0 =
     (case filter (\<lambda>r. \<not> (stemOnly \<and> \<not> stemEligible r)) records of
        [] \<Rightarrow> []
      | r # _ \<Rightarrow> if isHit (trim q) (normalizeText q) (normalizeCipInput q) r then [r] else [])"
proof -
  have "scanLoop (trim q) (normalizeText q) (normalizeCipInput q) stemOnly 0 records [] =
     (case filter (\<lambda>r. \<not> (stemOnly \<and> \<not> stemEligible r)) records of
        [] \<Rightarrow> []
      | r # _ \<Rightarrow> if isHit (trim q) (normalizeText q) (normalizeCipInput q) r then [r] else [])"
    by (rule scanLoop_nonpositive) simp
  with assms show ?thesis by (simp add: search_scan split: list.split)
qed

theorem zero_limit_first_record_witness:
  "exactMatch indexB (normalizeCipInput ''history'') = None
   \<and> search indexB ''history'' False 0 = [loadRecord rHist]
   \<and> exactMatch indexB (normalizeCipInput ''engineering'') = None
   \<and> search indexB ''engineering'' False 0 = []"
proof -
  have 1: "exactMatch indexB (normalizeCipInput ''history'') = None" by code_simp
  have 2: "exactMatch indexB (normalizeCipInput ''engineering'') = None" by code_simp
  have 3: "(case filter (\<lambda>r. \<not> (False \<and> \<not> stemEligible r)) indexB of
        [] \<Rightarrow> []
      | r # _ \<Rightarrow> if isHit (trim ''history'') (normalizeText ''history'') (normalizeCipInput ''history'') r then [r] else [])
      = [loadRecord rHist]"
    by code_simp
  have 4: "(case filter (\<lambda>r. \<not> (False \<and> \<not> stemEligible r)) indexB of
        [] \<Rightarrow> []
      | r # _ \<Rightarrow> if isHit (trim ''engineering'') (normalizeText ''engineering'') (normalizeCipInput ''engineering'') r then [r] else [])
      = []"
    by code_simp
  from zero_limit_first_record [OF 1, of False] zero_limit_first_record [OF 2, of False] 1 2 3 4
  show ?thesis by simp
qed

end
